theory Spec2Isabelle
  imports Complex_Main "HOL-Library.AList" "HOL-Library.Log_Nat"
begin

section \<open>JavaScript numbers\<close>

text \<open>
  The fields and arguments of \<open>CardAnimator\<close> have the TypeScript type \<open>number\<close>.
  A \<open>number\<close> is modelled as a finite value, one of the two infinities, or NaN.
  Finite arithmetic is exact: \<open>Fin x\<close> carries the real number \<open>x\<close>, rounding to
  binary64 and overflow of finite results are not modelled, and \<open>Fin 0\<close> stands for
  positive zero (negative zero is not distinguished). The special values follow
  IEEE 754, so that division by a zero \<open>duration\<close> and comparisons with NaN behave as
  they do in the source. The operators \<open>+\<close>, \<open>-\<close>, \<open>*\<close> and \<open>/\<close> are those of the
  source; \<open>inverse\<close> is there only because HOL's \<open>/\<close> belongs to the class that has it.
\<close>

datatype number = Fin real | PInf | NInf | NaN

instantiation number :: "{uminus, plus, minus, times, inverse}"
begin

fun uminus_number :: "number \<Rightarrow> number" where
  "uminus_number (Fin x) = Fin (- x)"
| "uminus_number PInf = NInf"
| "uminus_number NInf = PInf"
| "uminus_number NaN = NaN"

fun plus_number :: "number \<Rightarrow> number \<Rightarrow> number" where
  "plus_number (Fin x) (Fin y) = Fin (x + y)"
| "plus_number (Fin x) b = b"
| "plus_number a (Fin y) = a"
| "plus_number PInf PInf = PInf"
| "plus_number NInf NInf = NInf"
| "plus_number a b = NaN"

definition minus_number :: "number \<Rightarrow> number \<Rightarrow> number" where
  "minus_number a b = a + (- b)"

fun times_number :: "number \<Rightarrow> number \<Rightarrow> number" where
  "times_number (Fin x) (Fin y) = Fin (x * y)"
| "times_number NaN b = NaN"
| "times_number a NaN = NaN"
| "times_number (Fin x) b = (if x = 0 then NaN else if 0 < x then b else - b)"
| "times_number a (Fin y) = (if y = 0 then NaN else if 0 < y then a else - a)"
| "times_number PInf b = b"
| "times_number NInf b = - b"

fun divide_number :: "number \<Rightarrow> number \<Rightarrow> number" where
  "divide_number (Fin x) (Fin y) =
     (if y = 0 then (if x = 0 then NaN else if 0 < x then PInf else NInf)
      else Fin (x / y))"
| "divide_number NaN b = NaN"
| "divide_number a NaN = NaN"
| "divide_number (Fin x) b = Fin 0"
| "divide_number a (Fin y) = (if 0 \<le> y then a else - a)"
| "divide_number a b = NaN"

definition inverse_number :: "number \<Rightarrow> number" where
  "inverse_number a = divide (Fin 1) a"

instance ..

end

text \<open>The comparisons \<open><\<close> and \<open>>=\<close> of the source: false as soon as one side is NaN.\<close>

fun js_lt :: "number \<Rightarrow> number \<Rightarrow> bool" where
  "js_lt (Fin x) (Fin y) = (x < y)"
| "js_lt NaN b = False"
| "js_lt a NaN = False"
| "js_lt NInf b = (b \<noteq> NInf)"
| "js_lt a PInf = (a \<noteq> PInf)"
| "js_lt a b = False"

fun js_ge :: "number \<Rightarrow> number \<Rightarrow> bool" where
  "js_ge NaN b = False"
| "js_ge a NaN = False"
| "js_ge a b = (\<not> js_lt a b)"

text \<open>\<open>Math.min\<close> of two arguments: NaN if either is NaN, else the smaller.\<close>

fun Math_min :: "number \<Rightarrow> number \<Rightarrow> number" where
  "Math_min NaN b = NaN"
| "Math_min a NaN = NaN"
| "Math_min a b = (if js_lt b a then b else a)"

text \<open>\<open>Math.pow\<close> at an exponent that is a natural number (the source uses 2).\<close>

definition Math_pow :: "number \<Rightarrow> nat \<Rightarrow> number" where
  "Math_pow a n =
     (if n = 0 then Fin 1
      else case a of
          Fin x \<Rightarrow> Fin (x ^ n)
        | PInf \<Rightarrow> PInf
        | NInf \<Rightarrow> (if even n then PInf else NInf)
        | NaN \<Rightarrow> NaN)"

section \<open>The card animator\<close>

datatype property = Flip | Hover

text \<open>
  One entry of the \<open>animations\<close> map. The source's fields \<open>from\<close> and \<open>to\<close> are
  named \<open>fromValue\<close> and \<open>toValue\<close> here.
\<close>

record animation =
  startTime :: number
  duration :: number
  fromValue :: number
  toValue :: number
  property :: property

text \<open>
  The class has one field, the map \<open>animations\<close> from card ids to entries. A
  JavaScript \<open>Map\<close> keeps insertion order, \<open>set\<close> on a present key replaces the value in
  place and appends otherwise, \<open>delete\<close> removes the key: an association list with
  \<open>AList.update\<close> and \<open>AList.delete\<close>. Keys are compared as the map does
  (NaN equals NaN), which is equality on \<open>number\<close>.
\<close>

record CardAnimator =
  animations :: "(number \<times> animation) list"

definition new_CardAnimator :: CardAnimator where
  "new_CardAnimator = \<lparr>animations = []\<rparr>"

text \<open>
  \<open>performance.now()\<close> is an input of the two methods that read the clock: the
  argument \<open>now\<close>, a finite timestamp.
\<close>

definition startAnimation ::
  "real \<Rightarrow> number \<Rightarrow> property \<Rightarrow> number \<Rightarrow> number \<Rightarrow> number \<Rightarrow> CardAnimator \<Rightarrow> CardAnimator" where
  "startAnimation now cardId prop from_v to_v dur s =
     s\<lparr>animations :=
         AList.update cardId
           \<lparr>startTime = Fin now, duration = dur, fromValue = from_v, toValue = to_v,
            property = prop\<rparr>
           (animations s)\<rparr>"

text \<open>The locals \<open>progress\<close> and \<open>eased\<close> of \<open>update\<close>.\<close>

definition progress :: "real \<Rightarrow> animation \<Rightarrow> number" where
  "progress now anim =
     (let elapsed = Fin now - startTime anim
      in Math_min (elapsed / duration anim) (Fin 1))"

definition eased :: "number \<Rightarrow> number" where
  "eased p =
     (if js_lt p (Fin (1/2)) then Fin 2 * p * p
      else Fin 1 - Math_pow (Fin (- 2) * p + Fin 2) 2 / Fin 2)"

text \<open>\<open>update\<close> returns the value (\<open>None\<close> for \<open>null\<close>) and the animator after the call.\<close>

definition update :: "real \<Rightarrow> number \<Rightarrow> CardAnimator \<Rightarrow> number option \<times> CardAnimator" where
  "update now cardId s =
     (case map_of (animations s) cardId of
        None \<Rightarrow> (None, s)
      | Some anim \<Rightarrow>
          (let p = progress now anim;
               v = fromValue anim + (toValue anim - fromValue anim) * eased p
           in (Some v,
               if js_ge p (Fin 1)
               then s\<lparr>animations := AList.delete cardId (animations s)\<rparr>
               else s)))"

definition isAnimating :: "number \<Rightarrow> CardAnimator \<Rightarrow> bool" where
  "isAnimating cardId s = (map_of (animations s) cardId \<noteq> None)"

definition hasActiveAnimations :: "CardAnimator \<Rightarrow> bool" where
  "hasActiveAnimations s = (0 < length (animations s))"


text \<open>
  The states an animator can be in: a fresh one, and what \<open>startAnimation\<close> and
  \<open>update\<close> make of a reachable one (the two methods that write \<open>animations\<close>).
\<close>

inductive reachable :: "CardAnimator \<Rightarrow> bool" where
  reachable_new: "reachable new_CardAnimator"
| reachable_start:
    "reachable s \<Longrightarrow> reachable (startAnimation now cardId prop from_v to_v dur s)"
| reachable_update:
    "reachable s \<Longrightarrow> reachable (snd (update now cardId s))"

section \<open>The easing curve as the specification words it\<close>

text \<open>
  The specification's easing function, over \<open>number\<close>: for progress \<open>p < 0.5\<close> it is
  \<open>2 p p\<close>, otherwise \<open>1 - ((-2p+2)^2)/2\<close>, the square written as a product.
\<close>

definition eased_spec :: "number \<Rightarrow> number" where
  "eased_spec p =
     (if js_lt p (Fin (1/2)) then Fin 2 * p * p
      else Fin 1 - ((Fin (- 2) * p + Fin 2) * (Fin (- 2) * p + Fin 2)) / Fin 2)"

text \<open>The same curve on the reals, for statements about finite values.\<close>

definition eased_real :: "real \<Rightarrow> real" where
  "eased_real p = (if p < 1/2 then 2 * p * p else 1 - ((- 2 * p + 2)\<^sup>2) / 2)"

section \<open>Binary64 arithmetic\<close>

text \<open>
  What \<open>update\<close> returns at the ends of an animation, the order of the values it
  returns and the interval they lie in depend on rounding, on overflow and on the sign
  of zero. For the claims about them the class is embedded a second time, over IEEE 754
  binary64 numbers, with every operator rounding to nearest, ties to even, as the source
  computes. The embedding over exact reals above stays in use for the claims about the
  map and for scenarios whose values are exact in binary64.
\<close>

text \<open>Rounding a real to the nearest integer, a tie going to the even one.\<close>

definition rhe :: "real \<Rightarrow> int" where
  "rhe z = (let n = \<lfloor>z\<rfloor>; d = z - of_int n
            in if d < 1/2 then n else if 1/2 < d then n + 1
               else if even n then n else n + 1)"

text \<open>
  Rounding a non-negative real \<open>s\<close> to \<open>p\<close> significant bits: integers below \<open>2^p\<close>
  stay as they are, and from there on the quantum doubles with every further bit of
  the integer part.
\<close>

definition round_sig :: "nat \<Rightarrow> real \<Rightarrow> real" where
  "round_sig p s = (let k = nat (bitlen \<lfloor>s\<rfloor> - int p)
                    in of_int (rhe (s / 2 ^ k)) * 2 ^ k)"

text \<open>
  The same on the grid of multiples of \<open>2^(-N)\<close>. Binary64 has \<open>p = 53\<close> and its
  smallest positive number is \<open>2^(-1074)\<close>: \<open>mag64\<close> rounds a magnitude, \<open>rnd64\<close> a
  real of either sign, both before the test for overflow.
\<close>

definition scaled_round :: "nat \<Rightarrow> nat \<Rightarrow> real \<Rightarrow> real" where
  "scaled_round p N y = round_sig p (y * 2 ^ N) / 2 ^ N"

definition mag64 :: "real \<Rightarrow> real" where
  "mag64 y = scaled_round 53 1074 y"

definition rnd64 :: "real \<Rightarrow> real" where
  "rnd64 x = (if x < 0 then - mag64 (- x) else mag64 x)"

text \<open>
  A binary64 number: a finite value (\<open>Dbl 0\<close> is positive zero), negative zero, the
  two infinities, or NaN.
\<close>

datatype double = Dbl real | NegZero | PosInf | NegInf | NotANumber

text \<open>
  The exact result \<open>x\<close> of an operation becomes the number nearest to it. A result
  whose rounded magnitude reaches \<open>2^1024\<close> overflows to an infinity; one that rounds
  to zero keeps the sign of \<open>x\<close>.
\<close>

definition overflow64 :: real where
  "overflow64 = 2 ^ 1024"

definition round64 :: "real \<Rightarrow> double" where
  "round64 x =
     (let r = rnd64 x
      in if overflow64 \<le> r then PosInf
         else if r \<le> - overflow64 then NegInf
         else if r = 0 then (if x < 0 then NegZero else Dbl 0)
         else Dbl r)"

fun rv :: "double \<Rightarrow> real" where
  "rv (Dbl x) = x"
| "rv a = 0"

fun sgnbit :: "double \<Rightarrow> bool" where
  "sgnbit (Dbl x) = (x < 0)"
| "sgnbit NegZero = True"
| "sgnbit NegInf = True"
| "sgnbit a = False"

definition is_inf :: "double \<Rightarrow> bool" where
  "is_inf a = (a = PosInf \<or> a = NegInf)"

definition is_zero :: "double \<Rightarrow> bool" where
  "is_zero a = (a = Dbl 0 \<or> a = NegZero)"

definition zero64 :: "bool \<Rightarrow> double" where
  "zero64 neg = (if neg then NegZero else Dbl 0)"

definition inf64 :: "bool \<Rightarrow> double" where
  "inf64 neg = (if neg then NegInf else PosInf)"

text \<open>
  The operators of the source. An exact zero sum is negative only when both operands
  are; the sign of a zero or infinite product or quotient is the exclusive or of the
  operands' signs; \<open>inverse\<close> is there only because HOL's \<open>/\<close> belongs to the class
  that has it.
\<close>

instantiation double :: "{uminus, plus, minus, times, inverse}"
begin

fun uminus_double :: "double \<Rightarrow> double" where
  "uminus_double (Dbl x) = (if x = 0 then NegZero else Dbl (- x))"
| "uminus_double NegZero = Dbl 0"
| "uminus_double PosInf = NegInf"
| "uminus_double NegInf = PosInf"
| "uminus_double NotANumber = NotANumber"

definition plus_double :: "double \<Rightarrow> double \<Rightarrow> double" where
  "plus_double a b =
     (if a = NotANumber \<or> b = NotANumber then NotANumber
      else if is_inf a then (if is_inf b \<and> a \<noteq> b then NotANumber else a)
      else if is_inf b then b
      else let x = rv a + rv b
           in if x = 0 then zero64 (sgnbit a \<and> sgnbit b) else round64 x)"

definition minus_double :: "double \<Rightarrow> double \<Rightarrow> double" where
  "minus_double a b = a + (- b)"

definition times_double :: "double \<Rightarrow> double \<Rightarrow> double" where
  "times_double a b =
     (if a = NotANumber \<or> b = NotANumber then NotANumber
      else if is_inf a \<or> is_inf b
      then (if is_zero a \<or> is_zero b then NotANumber else inf64 (sgnbit a \<noteq> sgnbit b))
      else let x = rv a * rv b
           in if x = 0 then zero64 (sgnbit a \<noteq> sgnbit b) else round64 x)"

definition divide_double :: "double \<Rightarrow> double \<Rightarrow> double" where
  "divide_double a b =
     (if a = NotANumber \<or> b = NotANumber then NotANumber
      else if is_inf a then (if is_inf b then NotANumber else inf64 (sgnbit a \<noteq> sgnbit b))
      else if is_inf b then zero64 (sgnbit a \<noteq> sgnbit b)
      else if is_zero b
      then (if is_zero a then NotANumber else inf64 (sgnbit a \<noteq> sgnbit b))
      else let x = rv a / rv b
           in if x = 0 then zero64 (sgnbit a \<noteq> sgnbit b) else round64 x)"

definition inverse_double :: "double \<Rightarrow> double" where
  "inverse_double a = divide (Dbl 1) a"

instance ..

end

text \<open>
  \<open><\<close>, \<open>>=\<close>, \<open>Math.min\<close> (for which negative zero is below positive zero) and
  \<open>Math.pow\<close> at a natural exponent, taken as the correctly rounded power, which for
  the exponent 2 of the source is what \<open>x * x\<close> gives.
\<close>

definition lt64 :: "double \<Rightarrow> double \<Rightarrow> bool" where
  "lt64 a b =
     (a \<noteq> NotANumber \<and> b \<noteq> NotANumber \<and>
      (if a = NegInf then b \<noteq> NegInf
       else if b = PosInf then a \<noteq> PosInf
       else if a = PosInf \<or> b = NegInf then False
       else rv a < rv b))"

definition ge64 :: "double \<Rightarrow> double \<Rightarrow> bool" where
  "ge64 a b = (a \<noteq> NotANumber \<and> b \<noteq> NotANumber \<and> \<not> lt64 a b)"

definition Math_min64 :: "double \<Rightarrow> double \<Rightarrow> double" where
  "Math_min64 a b =
     (if a = NotANumber \<or> b = NotANumber then NotANumber
      else if lt64 b a then b
      else if lt64 a b then a
      else if sgnbit b then b else a)"

definition Math_pow64 :: "double \<Rightarrow> nat \<Rightarrow> double" where
  "Math_pow64 a n =
     (if n = 0 then Dbl 1
      else if a = NotANumber then NotANumber
      else if is_inf a then inf64 (sgnbit a \<and> odd n)
      else let x = rv a ^ n
           in if x = 0 then zero64 (sgnbit a \<and> odd n) else round64 x)"

text \<open>
  The class over binary64 numbers, method by method as above. Card ids stay of type
  \<open>number\<close>: as keys of the map the two zeros are the same key.
\<close>

record animation64 =
  startTime64 :: double
  duration64 :: double
  fromValue64 :: double
  toValue64 :: double
  property64 :: property

record CardAnimator64 =
  animations64 :: "(number \<times> animation64) list"

definition new_CardAnimator64 :: CardAnimator64 where
  "new_CardAnimator64 = \<lparr>animations64 = []\<rparr>"

definition startAnimation64 ::
  "real \<Rightarrow> number \<Rightarrow> property \<Rightarrow> double \<Rightarrow> double \<Rightarrow> double \<Rightarrow> CardAnimator64 \<Rightarrow> CardAnimator64" where
  "startAnimation64 now cardId prop from_v to_v dur s =
     s\<lparr>animations64 :=
         AList.update cardId
           \<lparr>startTime64 = Dbl now, duration64 = dur, fromValue64 = from_v, toValue64 = to_v,
            property64 = prop\<rparr>
           (animations64 s)\<rparr>"

definition progress64 :: "real \<Rightarrow> animation64 \<Rightarrow> double" where
  "progress64 now anim =
     (let elapsed = Dbl now - startTime64 anim
      in Math_min64 (elapsed / duration64 anim) (Dbl 1))"

definition eased64 :: "double \<Rightarrow> double" where
  "eased64 p =
     (if lt64 p (Dbl (1/2)) then Dbl 2 * p * p
      else Dbl 1 - Math_pow64 (Dbl (- 2) * p + Dbl 2) 2 / Dbl 2)"

definition update64 ::
  "real \<Rightarrow> number \<Rightarrow> CardAnimator64 \<Rightarrow> double option \<times> CardAnimator64" where
  "update64 now cardId s =
     (case map_of (animations64 s) cardId of
        None \<Rightarrow> (None, s)
      | Some anim \<Rightarrow>
          (let p = progress64 now anim;
               v = fromValue64 anim + (toValue64 anim - fromValue64 anim) * eased64 p
           in (Some v,
               if ge64 p (Dbl 1)
               then s\<lparr>animations64 := AList.delete cardId (animations64 s)\<rparr>
               else s)))"

definition isAnimating64 :: "number \<Rightarrow> CardAnimator64 \<Rightarrow> bool" where
  "isAnimating64 cardId s = (map_of (animations64 s) cardId \<noteq> None)"

text \<open>
  A real is a binary64 number when rounding leaves it as it is. The remaining
  definitions serve the proofs: the place of a number on the real line, with the
  infinities at \<open>2^1024\<close> and \<open>-2^1024\<close>; rounding clamped to that range; the numbers
  that are not NaN and hold a binary64 value; the finite ones; and the easing curve
  with its roundings written out.
\<close>

definition is_double :: "real \<Rightarrow> bool" where
  "is_double x = (round64 x = Dbl x)"

fun xv :: "double \<Rightarrow> real" where
  "xv (Dbl x) = x"
| "xv PosInf = overflow64"
| "xv NegInf = - overflow64"
| "xv a = 0"

definition rc64 :: "real \<Rightarrow> real" where
  "rc64 x = max (- overflow64) (min overflow64 (rnd64 x))"

definition ok64 :: "double \<Rightarrow> bool" where
  "ok64 a = (case a of Dbl x \<Rightarrow> is_double x | NotANumber \<Rightarrow> False | _ \<Rightarrow> True)"

definition fin64 :: "double \<Rightarrow> bool" where
  "fin64 a = (a \<noteq> NotANumber \<and> \<not> is_inf a)"


section \<open>Arithmetic on finite numbers\<close>

lemma minus_Fin [simp]: "Fin x - Fin y = Fin (x - y)"
  by (simp add: minus_number_def)

lemma Math_min_Fin [simp]: "Math_min (Fin x) (Fin y) = Fin (min x y)"
  by (simp add: min_def)

lemma Math_pow_Fin [simp]: "Math_pow (Fin x) n = Fin (x ^ n)"
  by (simp add: Math_pow_def)

lemma js_ge_Fin [simp]: "js_ge (Fin x) (Fin y) = (y \<le> x)"
  by (simp add: not_less)

lemma Math_pow_2: "Math_pow x 2 = x * x"
  by (cases x) (simp_all add: Math_pow_def power2_eq_square)

lemma eased_eq_spec: "eased p = eased_spec p"
  by (simp add: eased_def eased_spec_def Math_pow_2)

lemma eased_Fin: "eased (Fin p) = Fin (eased_real p)"
  by (simp add: eased_def eased_real_def)

lemma progress_Fin:
  "startTime a = Fin t0 \<Longrightarrow> duration a = Fin d \<Longrightarrow> d \<noteq> 0 \<Longrightarrow>
   progress now a = Fin (min ((now - t0) / d) 1)"
  by (simp add: progress_def)

section \<open>What update does, case by case\<close>

lemma update_absent:
  "map_of (animations s) c = None \<Longrightarrow> update now c s = (None, s)"
  by (simp add: update_def)

lemma update_state_cases:
  "snd (update now c s) = s \<or>
   snd (update now c s) = s\<lparr>animations := AList.delete c (animations s)\<rparr>"
  by (simp add: update_def Let_def split: option.split)

lemma update_finite:
  assumes "map_of (animations s) c =
             Some \<lparr>startTime = Fin t0, duration = Fin d, fromValue = Fin f, toValue = Fin g,
                   property = pr\<rparr>"
    and "d \<noteq> 0"
  shows "update now c s =
           (Some (Fin (f + (g - f) * eased_real (min ((now - t0) / d) 1))),
            if 1 \<le> (now - t0) / d
            then s\<lparr>animations := AList.delete c (animations s)\<rparr> else s)"
  using assms by (simp add: update_def Let_def progress_Fin eased_Fin)

lemma map_of_deleted:
  "map_of (animations (s\<lparr>animations := AList.delete c (animations s)\<rparr>)) c = None"
  by (simp add: delete_conv')

lemma reachable_distinct: "reachable s \<Longrightarrow> distinct (map fst (animations s))"
proof (induction rule: reachable.induct)
  case reachable_new
  show ?case by (simp add: new_CardAnimator_def)
next
  case (reachable_start s now cardId pr from_v to_v dur)
  then show ?case by (simp add: startAnimation_def distinct_update)
next
  case (reachable_update s now cardId)
  then show ?case
    using update_state_cases [of now cardId s] by (auto simp: distinct_delete)
qed

lemma distinct_keys_count:
  "distinct (map fst al) \<Longrightarrow> length (filter (\<lambda>e. fst e = k) al) \<le> 1"
proof (induction al)
  case Nil
  show ?case by simp
next
  case (Cons x al)
  show ?case
  proof (cases "fst x = k")
    case True
    then have "k \<notin> fst ` set al" using Cons.prems by auto
    then have "filter (\<lambda>e. fst e = k) al = []" by (auto simp: filter_empty_conv)
    then show ?thesis using True by simp
  next
    case False
    then show ?thesis using Cons by simp
  qed
qed

lemma length_update_present:
  "map_of al k \<noteq> None \<Longrightarrow> length (AList.update k v al) = length al"
  by (induction al) auto

lemma update_present:
  "map_of (animations s) c = Some a \<Longrightarrow>
   update now c s =
     (Some (fromValue a + (toValue a - fromValue a) * eased (progress now a)),
      if js_ge (progress now a) (Fin 1)
      then s\<lparr>animations := AList.delete c (animations s)\<rparr> else s)"
  by (simp add: update_def Let_def)

lemma js_lt_not_ge: "js_lt p (Fin 1) \<Longrightarrow> \<not> js_ge p (Fin 1)"
  by (cases p) simp_all

lemma isAnimating_iff_key: "isAnimating k s = (k \<in> fst ` set (animations s))"
  by (simp add: isAnimating_def map_of_eq_None_iff)

section \<open>Rounding to a number of significant bits\<close>

lemma rhe_of_int [simp]: "rhe (of_int n) = n"
  by (simp add: rhe_def)

lemma rhe_cases: "rhe z = \<lfloor>z\<rfloor> \<or> rhe z = \<lfloor>z\<rfloor> + 1"
  by (simp add: rhe_def Let_def)

lemma rhe_mono: "x \<le> y \<Longrightarrow> rhe x \<le> rhe y"
proof -
  assume xy: "x \<le> y"
  then have fl: "\<lfloor>x\<rfloor> \<le> \<lfloor>y\<rfloor>" by (rule floor_mono)
  show ?thesis
  proof (cases "\<lfloor>x\<rfloor> = \<lfloor>y\<rfloor>")
    case True
    then show ?thesis using xy by (auto simp: rhe_def Let_def)
  next
    case False
    then have "\<lfloor>x\<rfloor> + 1 \<le> \<lfloor>y\<rfloor>" using fl by simp
    moreover have "rhe x \<le> \<lfloor>x\<rfloor> + 1" using rhe_cases [of x] by auto
    moreover have "\<lfloor>y\<rfloor> \<le> rhe y" using rhe_cases [of y] by auto
    ultimately show ?thesis by linarith
  qed
qed

lemma rhe_le_int: "z \<le> of_int m \<Longrightarrow> rhe z \<le> m"
  using rhe_mono [of z "of_int m"] by simp

lemma rhe_ge_int: "of_int m \<le> z \<Longrightarrow> m \<le> rhe z"
  using rhe_mono [of "of_int m" z] by simp

lemma bitlen_mono: "a \<le> b \<Longrightarrow> bitlen a \<le> bitlen b"
  by (simp add: bitlen_def floorlog_mono)

lemma floor_lt_pow_bitlen: "0 \<le> s \<Longrightarrow> (s::real) < 2 ^ nat (bitlen \<lfloor>s\<rfloor>)"
proof -
  assume s: "0 \<le> s"
  show ?thesis
  proof (cases "\<lfloor>s\<rfloor> = 0")
    case True
    then have "s < 1" by (simp add: floor_eq_iff)
    then show ?thesis using True by simp
  next
    case False
    then have pos: "0 < \<lfloor>s\<rfloor>" using s by (simp add: order_less_le)
    have "\<lfloor>s\<rfloor> < 2 ^ nat (bitlen \<lfloor>s\<rfloor>)" using bitlen_bounds [OF pos] by simp
    then have "\<lfloor>s\<rfloor> < \<lfloor>2 ^ nat (bitlen \<lfloor>s\<rfloor>) :: real\<rfloor>" by (simp add: floor_power)
    then show ?thesis using floor_less_cancel by blast
  qed
qed

lemma pow_bitlen_le: "0 < \<lfloor>s\<rfloor> \<Longrightarrow> 2 ^ nat (bitlen \<lfloor>s\<rfloor> - 1) \<le> (s::real)"
proof -
  assume pos: "0 < \<lfloor>s\<rfloor>"
  have "2 ^ nat (bitlen \<lfloor>s\<rfloor> - 1) \<le> \<lfloor>s\<rfloor>" using bitlen_bounds [OF pos] by simp
  then have "of_int (2 ^ nat (bitlen \<lfloor>s\<rfloor> - 1)) \<le> (of_int \<lfloor>s\<rfloor> :: real)"
    by (simp only: of_int_le_iff)
  also have "\<dots> \<le> s" by simp
  finally show ?thesis by simp
qed

lemma round_sig_mono:
  assumes "0 \<le> s1" "s1 \<le> s2" "0 < p"
  shows "round_sig p s1 \<le> round_sig p s2"
proof -
  define b1 where "b1 = bitlen \<lfloor>s1\<rfloor>"
  define b2 where "b2 = bitlen \<lfloor>s2\<rfloor>"
  define k1 where "k1 = nat (b1 - int p)"
  define k2 where "k2 = nat (b2 - int p)"
  have b12: "b1 \<le> b2" unfolding b1_def b2_def using assms by (intro bitlen_mono floor_mono)
  have r1: "round_sig p s1 = of_int (rhe (s1 / 2 ^ k1)) * 2 ^ k1"
    by (simp add: round_sig_def Let_def k1_def b1_def)
  have r2: "round_sig p s2 = of_int (rhe (s2 / 2 ^ k2)) * 2 ^ k2"
    by (simp add: round_sig_def Let_def k2_def b2_def)
  show ?thesis
  proof (cases "k1 = k2")
    case True
    have "s1 / 2 ^ k2 \<le> s2 / 2 ^ k2" using assms by (simp add: divide_right_mono)
    then have "rhe (s1 / 2 ^ k2) \<le> rhe (s2 / 2 ^ k2)" by (rule rhe_mono)
    then show ?thesis unfolding r1 r2 True by simp
  next
    case False
    then have k12: "k1 < k2" using b12 unfolding k1_def k2_def by linarith
    then have b2p: "int p < b2" unfolding k2_def by linarith
    have k2eq: "int k2 = b2 - int p" using b2p unfolding k2_def by linarith
    have b1lt: "b1 < b2" using k12 unfolding k1_def k2_def by linarith
    have b1nn: "0 \<le> b1" by (simp add: b1_def bitlen_nonneg)
    have k1le: "int k1 \<le> b1" using b1nn unfolding k1_def by linarith
    define B :: real where "B = 2 ^ nat (b2 - 1)"
    have pos2: "0 < \<lfloor>s2\<rfloor>"
    proof (rule ccontr)
      assume "\<not> 0 < \<lfloor>s2\<rfloor>"
      then have "bitlen \<lfloor>s2\<rfloor> = 0" by (simp add: bitlen_eq_zero_iff)
      then show False using b2p by (simp add: b2_def)
    qed
    have Ble: "B \<le> s2" unfolding B_def b2_def using pos2 by (rule pow_bitlen_le)
    have "s1 < 2 ^ nat b1" unfolding b1_def using assms(1) by (rule floor_lt_pow_bitlen)
    also have "(2::real) ^ nat b1 \<le> 2 ^ nat (b2 - 1)"
      using b1lt by (intro power_increasing) auto
    finally have s1B: "s1 < B" by (simp add: B_def)
    have "k1 \<le> nat (b2 - 1)" using k1le b1lt by linarith
    then have e1: "nat (b2 - 1) = k1 + (nat (b2 - 1) - k1)" by simp
    have B1: "B = 2 ^ (nat (b2 - 1) - k1) * 2 ^ k1"
      unfolding B_def by (subst e1) (simp add: power_add mult.commute)
    have "s1 / 2 ^ k1 \<le> of_int (2 ^ (nat (b2 - 1) - k1))"
      using s1B by (simp add: B1 divide_le_eq)
    then have "rhe (s1 / 2 ^ k1) \<le> 2 ^ (nat (b2 - 1) - k1)" by (rule rhe_le_int)
    then have "(of_int (rhe (s1 / 2 ^ k1)) :: real) \<le> of_int (2 ^ (nat (b2 - 1) - k1))"
      by (simp only: of_int_le_iff)
    then have up1: "round_sig p s1 \<le> B"
      unfolding r1 B1 by (simp add: mult_right_mono)
    have "k2 \<le> nat (b2 - 1)" using k2eq b2p assms(3) by linarith
    then have e2: "nat (b2 - 1) = k2 + (nat (b2 - 1) - k2)" by simp
    have B2: "B = 2 ^ (nat (b2 - 1) - k2) * 2 ^ k2"
      unfolding B_def by (subst e2) (simp add: power_add mult.commute)
    have "of_int (2 ^ (nat (b2 - 1) - k2)) \<le> s2 / 2 ^ k2"
      using Ble by (simp add: B2 le_divide_eq)
    then have "2 ^ (nat (b2 - 1) - k2) \<le> rhe (s2 / 2 ^ k2)" by (rule rhe_ge_int)
    then have "(of_int (2 ^ (nat (b2 - 1) - k2)) :: real) \<le> of_int (rhe (s2 / 2 ^ k2))"
      by (simp only: of_int_le_iff)
    then have up2: "B \<le> round_sig p s2"
      unfolding r2 B2 by (simp add: mult_right_mono)
    from up1 up2 show ?thesis by linarith
  qed
qed

lemma rhe_0 [simp]: "rhe 0 = 0"
  using rhe_of_int [of 0] by simp

lemma round_sig_0 [simp]: "round_sig p 0 = 0"
  by (simp add: round_sig_def)



lemma bitlen_eqI:
  assumes "2 ^ m \<le> a" "a < 2 ^ Suc m"
  shows "bitlen a = int m + 1"
proof -
  have "(0::int) < 2 ^ m" by simp
  then have pos: "0 < a" using assms(1) by linarith
  define b where "b = bitlen a"
  have b1: "1 \<le> b" using pos bitlen_eq_zero_iff [of a] bitlen_nonneg [of a] unfolding b_def by linarith
  have lo: "2 ^ nat (b - 1) \<le> a" and hi: "a < 2 ^ nat b"
    using bitlen_bounds [OF pos] by (simp_all add: b_def)
  have l1: "(2::int) ^ nat (b - 1) < 2 ^ Suc m" using lo assms(2) by linarith
  have "nat (b - 1) < Suc m"
    by (rule power_less_imp_less_exp [of "2::int"]) (use l1 in simp_all)
  moreover have l2: "(2::int) ^ m < 2 ^ nat b" using hi assms(1) by linarith
  have "m < nat b"
    by (rule power_less_imp_less_exp [of "2::int"]) (use l2 in simp_all)
  ultimately show ?thesis using b1 unfolding b_def by linarith
qed






lemma rhe_nonneg: "0 \<le> z \<Longrightarrow> 0 \<le> rhe z"
  using rhe_ge_int [of 0 z] by simp

lemma round_sig_nonneg: "0 \<le> s \<Longrightarrow> 0 \<le> round_sig p s"
  by (simp add: round_sig_def Let_def rhe_nonneg)

lemma round_sig_int: "\<exists>n::int. round_sig p s = of_int n"
proof -
  have "round_sig p s =
          of_int (rhe (s / 2 ^ nat (bitlen \<lfloor>s\<rfloor> - int p)) * 2 ^ nat (bitlen \<lfloor>s\<rfloor> - int p))"
    by (simp add: round_sig_def Let_def)
  then show ?thesis by blast
qed

lemma round_sig_of_int_shift:
  assumes "0 < p" "0 < n" "n \<le> 2 ^ p"
  shows "round_sig p (of_int (n * 2 ^ k)) = of_int (n * 2 ^ k)"
proof -
  define m where "m = n * 2 ^ k"
  have bm: "bitlen m = bitlen n + int k" using assms(2) by (simp add: m_def)
  have rs: "round_sig p (of_int m) =
              of_int (rhe (of_int m / 2 ^ nat (bitlen m - int p))) * 2 ^ nat (bitlen m - int p)"
    by (simp add: round_sig_def Let_def)
  show ?thesis
  proof (cases "n = 2 ^ p")
    case True
    have "bitlen n = int p + 1"
      unfolding True by (rule bitlen_eqI) simp_all
    then have k': "nat (bitlen m - int p) = Suc k" using bm by simp
    have p: "p = Suc (p - 1)" using assms(1) by simp
    have mm: "m = 2 ^ (p - 1) * 2 ^ Suc k"
      unfolding m_def True by (subst p) simp
    have "(of_int m :: real) / 2 ^ Suc k = of_int (2 ^ (p - 1))"
      unfolding mm by simp
    then have "rhe (of_int m / 2 ^ Suc k) = 2 ^ (p - 1)"
      by (simp only: rhe_of_int)
    then have "round_sig p (of_int m) = of_int (2 ^ (p - 1)) * 2 ^ Suc k"
      unfolding rs k' by simp
    also have "\<dots> = of_int m" unfolding mm by simp
    finally show ?thesis unfolding m_def .
  next
    case False
    then have lt: "n < 2 ^ p" using assms(3) by simp
    define b where "b = bitlen n"
    have b1: "1 \<le> b" using assms(2) bitlen_eq_zero_iff [of n] bitlen_nonneg [of n]
      unfolding b_def by linarith
    have "2 ^ nat (b - 1) \<le> n" using bitlen_bounds [OF assms(2)] by (simp add: b_def)
    then have l: "(2::int) ^ nat (b - 1) < 2 ^ p" using lt by linarith
    have "nat (b - 1) < p"
      by (rule power_less_imp_less_exp [of "2::int"]) (use l in simp_all)
    then have bp: "b \<le> int p" using b1 by linarith
    define k' where "k' = nat (bitlen m - int p)"
    have k'le: "k' \<le> k" using bp bm unfolding k'_def b_def by linarith
    have kk: "k = (k - k') + k'" using k'le by simp
    have mm: "m = (n * 2 ^ (k - k')) * 2 ^ k'"
      unfolding m_def by (subst kk) (simp add: power_add)
    have "(of_int m :: real) / 2 ^ k' = of_int (n * 2 ^ (k - k'))"
      unfolding mm by simp
    then have "rhe (of_int m / 2 ^ k') = n * 2 ^ (k - k')"
      by (simp only: rhe_of_int)
    then have "round_sig p (of_int m) = of_int (n * 2 ^ (k - k')) * 2 ^ k'"
      unfolding rs k'_def [symmetric] by simp
    also have "\<dots> = of_int m" unfolding mm by simp
    finally show ?thesis unfolding m_def .
  qed
qed

lemma round_sig_idem:
  assumes "0 < p" "0 \<le> s"
  shows "round_sig p (round_sig p s) = round_sig p s"
proof -
  define k where "k = nat (bitlen \<lfloor>s\<rfloor> - int p)"
  define n where "n = rhe (s / 2 ^ k)"
  have r: "round_sig p s = of_int (n * 2 ^ k)"
    by (simp add: round_sig_def Let_def k_def n_def)
  have n0: "0 \<le> n" unfolding n_def using assms(2) by (intro rhe_nonneg) simp
  have "nat (bitlen \<lfloor>s\<rfloor>) \<le> p + k" unfolding k_def by linarith
  then have "(2::real) ^ nat (bitlen \<lfloor>s\<rfloor>) \<le> 2 ^ (p + k)"
    by (intro power_increasing) simp_all
  then have "s < 2 ^ (p + k)" using floor_lt_pow_bitlen [OF assms(2)] by linarith
  then have "s / 2 ^ k \<le> of_int (2 ^ p)"
    by (simp add: power_add divide_le_eq)
  then have np: "n \<le> 2 ^ p" unfolding n_def by (rule rhe_le_int)
  show ?thesis
  proof (cases "n = 0")
    case True
    then show ?thesis unfolding r by simp
  next
    case False
    then have "0 < n" using n0 by simp
    then show ?thesis unfolding r using assms(1) np by (intro round_sig_of_int_shift)
  qed
qed

lemma scaled_round_mono:
  "0 < p \<Longrightarrow> 0 \<le> x \<Longrightarrow> x \<le> y \<Longrightarrow> scaled_round p N x \<le> scaled_round p N y"
  unfolding scaled_round_def
  by (intro divide_right_mono round_sig_mono mult_right_mono mult_nonneg_nonneg) simp_all

lemma scaled_round_idem:
  assumes "0 < p" "0 \<le> x"
  shows "scaled_round p N (scaled_round p N x) = scaled_round p N x"
proof -
  have "scaled_round p N x * 2 ^ N = round_sig p (x * 2 ^ N)"
    by (simp add: scaled_round_def)
  then have "scaled_round p N (scaled_round p N x) = round_sig p (round_sig p (x * 2 ^ N)) / 2 ^ N"
    by (simp add: scaled_round_def)
  also have "\<dots> = round_sig p (x * 2 ^ N) / 2 ^ N"
    using assms by (subst round_sig_idem) simp_all
  finally show ?thesis by (simp add: scaled_round_def)
qed

lemma scaled_round_nonneg: "0 \<le> x \<Longrightarrow> 0 \<le> scaled_round p N x"
  unfolding scaled_round_def by (intro divide_nonneg_nonneg round_sig_nonneg) simp_all

lemma scaled_round_0 [simp]: "scaled_round p N 0 = 0"
  by (simp add: scaled_round_def)

lemma scaled_round_grid: "\<exists>n::int. scaled_round p N x = of_int n / 2 ^ N"
  using round_sig_int [of p "x * 2 ^ N"] by (auto simp: scaled_round_def)

section \<open>Rounding on the real line\<close>

lemma mag64_mono: "0 \<le> x \<Longrightarrow> x \<le> y \<Longrightarrow> mag64 x \<le> mag64 y"
  unfolding mag64_def by (rule scaled_round_mono) simp_all

lemma mag64_nonneg: "0 \<le> x \<Longrightarrow> 0 \<le> mag64 x"
  unfolding mag64_def by (rule scaled_round_nonneg)

lemma mag64_0 [simp]: "mag64 0 = 0"
  by (simp add: mag64_def)

lemma mag64_idem: "0 \<le> x \<Longrightarrow> mag64 (mag64 x) = mag64 x"
  unfolding mag64_def by (rule scaled_round_idem) simp_all

lemma rnd64_0 [simp]: "rnd64 0 = 0"
  by (simp add: rnd64_def)

lemma rnd64_nonneg: "0 \<le> x \<Longrightarrow> 0 \<le> rnd64 x"
  by (simp add: rnd64_def mag64_nonneg)

lemma rnd64_nonpos: "x \<le> 0 \<Longrightarrow> rnd64 x \<le> 0"
  using mag64_nonneg [of "- x"] by (cases "x = 0") (simp_all add: rnd64_def)

lemma rnd64_minus: "rnd64 (- x) = - rnd64 x"
  by (cases "x = 0") (auto simp: rnd64_def)

lemma rnd64_mono: "x \<le> y \<Longrightarrow> rnd64 x \<le> rnd64 y"
proof -
  assume xy: "x \<le> y"
  consider "0 \<le> x" | "x < 0" "0 \<le> y" | "y < 0" by linarith
  then show ?thesis
  proof cases
    case 1
    then show ?thesis using xy by (simp add: rnd64_def mag64_mono)
  next
    case 2
    then show ?thesis using rnd64_nonpos [of x] rnd64_nonneg [of y] by linarith
  next
    case 3
    then have "mag64 (- y) \<le> mag64 (- x)" using xy by (intro mag64_mono) simp_all
    then show ?thesis using 3 xy by (simp add: rnd64_def)
  qed
qed

lemma rnd64_idem: "rnd64 (rnd64 x) = rnd64 x"
proof (cases "x < 0")
  case True
  have m: "0 \<le> mag64 (- x)" using True by (intro mag64_nonneg) simp
  show ?thesis
  proof (cases "mag64 (- x) = 0")
    case True
    then show ?thesis using \<open>x < 0\<close> by (simp add: rnd64_def)
  next
    case False
    then have "- mag64 (- x) < 0" using m by simp
    then show ?thesis using True by (simp add: rnd64_def mag64_idem)
  qed
next
  case False
  then have "\<not> mag64 x < 0" using mag64_nonneg [of x] by simp
  then show ?thesis using False by (simp add: rnd64_def mag64_idem)
qed

lemma overflow64_gt: "2 ^ 64 < overflow64"
  unfolding overflow64_def by (rule power_strict_increasing) simp_all

lemma overflow64_pos: "0 < overflow64"
  unfolding overflow64_def by (rule zero_less_power) simp

lemma rc64_mono: "x \<le> y \<Longrightarrow> rc64 x \<le> rc64 y"
  unfolding rc64_def using rnd64_mono [of x y] by (intro max.mono min.mono) simp_all


lemma rc64_0 [simp]: "rc64 0 = 0"
  unfolding rc64_def using overflow64_pos by simp

lemma rc64_minus: "rc64 (- x) = - rc64 x"
  unfolding rc64_def rnd64_minus using overflow64_pos by (simp add: max_def min_def)

lemma rc64_inner: "\<bar>rnd64 x\<bar> < overflow64 \<Longrightarrow> rc64 x = rnd64 x"
  unfolding rc64_def by (auto simp: max_def min_def)


lemma round64_0 [simp]: "round64 0 = Dbl 0"
  using overflow64_pos by (simp add: round64_def)

lemma xv_round64: "xv (round64 x) = rc64 x"
  using overflow64_pos by (auto simp: round64_def rc64_def Let_def max_def min_def)

lemma round64_not_nan [simp]: "round64 x \<noteq> NotANumber"
  by (simp add: round64_def Let_def)

lemma is_double_iff: "is_double x \<longleftrightarrow> rnd64 x = x \<and> \<bar>x\<bar> < overflow64"
  using overflow64_pos by (auto simp: is_double_def round64_def Let_def)

lemma is_double_rc64: "is_double x \<Longrightarrow> rc64 x = x"
  by (simp add: is_double_iff rc64_inner)

lemma is_double_0 [simp]: "is_double 0"
  by (simp add: is_double_def)

lemma is_double_minus: "is_double x \<Longrightarrow> is_double (- x)"
  by (simp add: is_double_iff rnd64_minus)

lemma ok64_round64: "ok64 (round64 x)"
  using overflow64_pos
  by (auto simp: ok64_def round64_def Let_def is_double_iff rnd64_idem)


section \<open>The operators on the real line\<close>

lemma ok64_simps [simp]:
  "ok64 (Dbl x) = is_double x" "ok64 NegZero" "ok64 PosInf" "ok64 NegInf" "\<not> ok64 NotANumber"
  by (simp_all add: ok64_def)

lemma fin64_simps [simp]:
  "fin64 (Dbl x)" "fin64 NegZero" "\<not> fin64 PosInf" "\<not> fin64 NegInf" "\<not> fin64 NotANumber"
  by (simp_all add: fin64_def is_inf_def)

lemma is_inf_simps [simp]:
  "\<not> is_inf (Dbl x)" "\<not> is_inf NegZero" "is_inf PosInf" "is_inf NegInf" "\<not> is_inf NotANumber"
  by (simp_all add: is_inf_def)

lemma is_zero_simps [simp]:
  "is_zero (Dbl x) = (x = 0)" "is_zero NegZero" "\<not> is_zero PosInf" "\<not> is_zero NegInf"
  "\<not> is_zero NotANumber"
  by (simp_all add: is_zero_def)

lemma zero64_props [simp]:
  "ok64 (zero64 n)" "fin64 (zero64 n)" "xv (zero64 n) = 0" "rv (zero64 n) = 0"
  "zero64 n \<noteq> NotANumber" "sgnbit (zero64 n) = n" "is_zero (zero64 n)"
  by (simp_all add: zero64_def)

lemma inf64_props [simp]:
  "ok64 (inf64 n)" "\<not> fin64 (inf64 n)" "inf64 n \<noteq> NotANumber" "sgnbit (inf64 n) = n"
  "is_inf (inf64 n)"
  by (simp_all add: inf64_def)

lemma fin64_cases: "fin64 a \<Longrightarrow> (\<And>x. a = Dbl x \<Longrightarrow> P) \<Longrightarrow> (a = NegZero \<Longrightarrow> P) \<Longrightarrow> P"
  by (cases a) simp_all

lemma fin64_xv: "fin64 a \<Longrightarrow> rv a = xv a"
  by (cases a) simp_all

lemma fin64_uminus: "fin64 a \<Longrightarrow> fin64 (- a) \<and> xv (- a) = - xv a"
  by (cases a) simp_all

lemma ok64_uminus: "ok64 a \<Longrightarrow> ok64 (- a)"
  by (cases a) (simp_all add: is_double_minus)


lemma plus_fin:
  assumes "fin64 a" "fin64 b"
  shows "ok64 (a + b)" "xv (a + b) = rc64 (xv a + xv b)"
  using assms
  by (simp_all add: plus_double_def fin64_def Let_def ok64_round64 xv_round64 fin64_xv)

lemma minus_fin:
  assumes "fin64 a" "fin64 b"
  shows "ok64 (a - b)" "xv (a - b) = rc64 (xv a - xv b)"
  using plus_fin [of a "- b"] fin64_uminus [of b] assms by (simp_all add: minus_double_def)




lemma xv_bounded: "ok64 a \<Longrightarrow> - overflow64 \<le> xv a \<and> xv a \<le> overflow64"
  using overflow64_pos by (cases a) (auto simp: is_double_iff)




section \<open>Representable numbers\<close>

lemma scaled_round_dyadic_small:
  assumes "0 < p" "0 < n" "n \<le> 2 ^ p" "j \<le> N"
  shows "scaled_round p N (of_int n / 2 ^ j) = of_int n / 2 ^ j"
proof -
  have N: "N = (N - j) + j" using assms(4) by simp
  have "of_int n / 2 ^ j * 2 ^ N = (of_int (n * 2 ^ (N - j)) :: real)"
    by (subst N) (simp add: power_add)
  then have "scaled_round p N (of_int n / 2 ^ j) = of_int (n * 2 ^ (N - j)) / 2 ^ N"
    using round_sig_of_int_shift [OF assms(1-3), of "N - j"]
    by (simp only: scaled_round_def)
  also have "\<dots> = of_int n / 2 ^ j"
    by (subst (2) N) (simp add: power_add)
  finally show ?thesis .
qed

lemma scaled_round_dyadic_large:
  assumes "0 < p" "0 < n" "n \<le> 2 ^ p"
  shows "scaled_round p N (of_int (n * 2 ^ k)) = of_int (n * 2 ^ k)"
proof -
  have "of_int (n * 2 ^ k) * 2 ^ N = (of_int (n * 2 ^ (k + N)) :: real)"
    by (simp add: power_add)
  then have "scaled_round p N (of_int (n * 2 ^ k)) = of_int (n * 2 ^ (k + N)) / 2 ^ N"
    using round_sig_of_int_shift [OF assms(1-3), of "k + N"]
    by (simp only: scaled_round_def)
  also have "\<dots> = of_int (n * 2 ^ k)" by (simp add: power_add)
  finally show ?thesis .
qed

lemma is_double_dyadic:
  assumes "0 < n" "n \<le> 2 ^ 53" "j \<le> 1074" "of_int n / 2 ^ j \<le> (2::real) ^ 64"
  shows "is_double (of_int n / 2 ^ j)" "is_double (- (of_int n / 2 ^ j))"
proof -
  have pos: "(0::real) \<le> of_int n / 2 ^ j" using assms(1) by simp
  have "mag64 (of_int n / 2 ^ j) = of_int n / 2 ^ j"
    unfolding mag64_def using assms(1-3) by (intro scaled_round_dyadic_small) simp_all
  then have "rnd64 (of_int n / 2 ^ j) = of_int n / 2 ^ j"
    using pos by (simp add: rnd64_def)
  moreover have "\<bar>of_int n / 2 ^ j :: real\<bar> < overflow64"
    using assms(4) pos overflow64_gt by linarith
  ultimately show "is_double (of_int n / 2 ^ j)" by (simp add: is_double_iff)
  then show "is_double (- (of_int n / 2 ^ j))" by (rule is_double_minus)
qed

lemma is_double_pow2:
  assumes "k \<le> 64"
  shows "is_double (2 ^ k)" "is_double (- (2 ^ k))"
proof -
  have "mag64 (of_int (1 * 2 ^ k)) = of_int (1 * 2 ^ k)"
    unfolding mag64_def by (intro scaled_round_dyadic_large) simp_all
  then have "rnd64 (2 ^ k) = 2 ^ k" by (simp add: rnd64_def)
  moreover have "(2::real) ^ k \<le> 2 ^ 64" using assms by (intro power_increasing) simp_all
  then have "\<bar>2 ^ k :: real\<bar> < overflow64" using overflow64_gt by simp
  ultimately show "is_double (2 ^ k)" by (simp add: is_double_iff)
  then show "is_double (- (2 ^ k))" by (rule is_double_minus)
qed

lemma is_double_consts [simp]:
  "is_double 1" "is_double 2" "is_double (- 2)" "is_double (1/2)"
  using is_double_dyadic [of 1 0] is_double_dyadic [of 2 0] is_double_dyadic [of 1 1]
  by simp_all

lemma rc64_consts [simp]: "rc64 1 = 1" "rc64 2 = 2" "rc64 (- 2) = - 2" "rc64 (1/2) = 1/2"
  by (simp_all add: is_double_rc64)

lemma round64_double: "is_double x \<Longrightarrow> round64 x = Dbl x"
  by (simp add: is_double_def)

lemma sgnbit_round64: "sgnbit (round64 x) = (x < 0)"
proof (cases "x < 0")
  case True
  then have "rnd64 x \<le> 0" by (intro rnd64_nonpos) simp
  then show ?thesis using True overflow64_pos by (auto simp: round64_def Let_def)
next
  case False
  then have "0 \<le> rnd64 x" by (intro rnd64_nonneg) simp
  then show ?thesis using False overflow64_pos by (auto simp: round64_def Let_def)
qed

section \<open>The steps of update in binary64\<close>




lemma elapsed64:
  assumes "t0 \<le> now"
  shows "ok64 (Dbl now - Dbl t0)" "xv (Dbl now - Dbl t0) = rc64 (now - t0)"
    "0 \<le> xv (Dbl now - Dbl t0)" "\<not> sgnbit (Dbl now - Dbl t0)"
proof -
  show "ok64 (Dbl now - Dbl t0)" by (rule minus_fin) simp_all
  show x: "xv (Dbl now - Dbl t0) = rc64 (now - t0)" using minus_fin(2) [of "Dbl now" "Dbl t0"] by simp
  show "0 \<le> xv (Dbl now - Dbl t0)" unfolding x using rc64_mono [of 0 "now - t0"] assms by simp
  show "\<not> sgnbit (Dbl now - Dbl t0)"
    using assms by (auto simp: minus_double_def plus_double_def Let_def sgnbit_round64)
qed













section \<open>What update64 does, case by case\<close>

lemma update64_absent:
  "map_of (animations64 s) c = None \<Longrightarrow> update64 now c s = (None, s)"
  by (simp add: update64_def)

lemma update64_present:
  "map_of (animations64 s) c = Some a \<Longrightarrow>
   update64 now c s =
     (Some (fromValue64 a + (toValue64 a - fromValue64 a) * eased64 (progress64 now a)),
      if ge64 (progress64 now a) (Dbl 1)
      then s\<lparr>animations64 := AList.delete c (animations64 s)\<rparr> else s)"
  by (simp add: update64_def Let_def)

lemma map_of_deleted64:
  "map_of (animations64 (s\<lparr>animations64 := AList.delete c (animations64 s)\<rparr>)) c = None"
  by (simp add: delete_conv')




lemma elapsed_zero64: "Dbl t - Dbl t = Dbl 0"
  by (simp add: minus_double_def plus_double_def zero64_def)



lemma eased64_nan: "eased64 NotANumber = NotANumber"
  by (simp add: eased64_def lt64_def times_double_def plus_double_def minus_double_def
      divide_double_def Math_pow64_def)

lemma is_double_grid: "is_double x \<Longrightarrow> \<exists>n::int. x = of_int n / 2 ^ 1074"
proof -
  assume "is_double x"
  then have r: "rnd64 x = x" by (simp add: is_double_iff)
  obtain n :: int where n: "mag64 \<bar>x\<bar> = of_int n / 2 ^ 1074"
    unfolding mag64_def using scaled_round_grid by blast
  show ?thesis
  proof (cases "x < 0")
    case True
    then have "x = of_int (- n) / 2 ^ 1074" using r n by (simp add: rnd64_def)
    then show ?thesis by blast
  next
    case False
    then have "x = of_int n / 2 ^ 1074" using r n by (simp add: rnd64_def)
    then show ?thesis by blast
  qed
qed

lemma is_double_tiny: "is_double (1 / 2 ^ 1074)"
proof -
  have "mag64 (of_int 1 / 2 ^ 1074) = of_int 1 / 2 ^ 1074"
    unfolding mag64_def by (intro scaled_round_dyadic_small) simp_all
  then have "rnd64 (1 / 2 ^ 1074) = 1 / 2 ^ 1074" by (simp add: rnd64_def)
  moreover have "(1::real) / 2 ^ 1074 \<le> 1" by (intro divide_le_eq_1_pos [THEN iffD2] one_le_power zero_less_power) simp_all
  then have "\<bar>(1::real) / 2 ^ 1074\<bar> < overflow64"
    using overflow64_gt power_strict_increasing [of 0 64 "2::real"] by simp
  ultimately show ?thesis by (simp add: is_double_iff)
qed

lemma elapsed_positive64:
  assumes "is_double now" "is_double t0" "t0 < now"
  shows "0 < xv (Dbl now - Dbl t0)"
proof -
  define P :: real where "P = 2 ^ 1074"
  have Ppos: "0 < P" unfolding P_def by (rule zero_less_power) simp
  obtain n1 n2 :: int where n: "now = of_int n1 / P" "t0 = of_int n2 / P"
    using is_double_grid [OF assms(1)] is_double_grid [OF assms(2)] unfolding P_def by blast
  have "(of_int n2 :: real) < of_int n1"
    using assms(3) Ppos unfolding n by (simp add: divide_less_cancel)
  then have "n2 + 1 \<le> n1" by simp
  then have "(of_int n2 :: real) + 1 \<le> of_int n1"
    by (metis of_int_1 of_int_add of_int_le_iff)
  then have "(of_int n2 + 1) / P \<le> of_int n1 / P"
    using Ppos by (intro divide_right_mono) simp_all
  then have le: "1 / P \<le> now - t0" unfolding n by (simp add: add_divide_distrib)
  have d: "is_double (1 / P)" unfolding P_def by (rule is_double_tiny)
  have "rc64 (1 / P) \<le> rc64 (now - t0)" using le by (rule rc64_mono)
  then have "1 / P \<le> rc64 (now - t0)" unfolding is_double_rc64 [OF d] .
  moreover have "0 < 1 / P" using Ppos by simp
  ultimately have "0 < rc64 (now - t0)" by linarith
  then show ?thesis using minus_fin(2) [of "Dbl now" "Dbl t0"] by simp
qed

lemma pos_not_sgn: "ok64 a \<Longrightarrow> 0 < xv a \<Longrightarrow> \<not> sgnbit a \<and> \<not> is_zero a"
  using overflow64_pos by (cases a) auto

lemma sgn_lt_one: "a \<noteq> NotANumber \<Longrightarrow> sgnbit a \<Longrightarrow> lt64 a (Dbl 1)"
  by (cases a) (auto simp: lt64_def)

lemma negative_quotient64:
  assumes "\<not> sgnbit E" "E \<noteq> NotANumber" "sgnbit D" "D \<noteq> NotANumber"
  shows "E / D = NotANumber \<or> sgnbit (E / D)"
  using assms
  by (cases "is_inf E"; cases "is_inf D"; cases "is_zero D"; cases "is_zero E")
    (auto simp: divide_double_def Let_def sgnbit_round64 is_inf_def is_zero_def
      divide_less_0_iff zero_less_divide_iff not_less
      elim!: sgnbit.elims)

section \<open>Evaluation at concrete numbers\<close>

lemma is_double_of_int: "0 < n \<Longrightarrow> n \<le> 2 ^ 53 \<Longrightarrow> is_double (of_int n)"
proof -
  assume n: "0 < n" "n \<le> 2 ^ 53"
  have "(of_int n :: real) \<le> of_int (2 ^ 53)" using n(2) by (simp only: of_int_le_iff)
  also have "\<dots> \<le> 2 ^ 64" by simp
  finally have "(of_int n :: real) / 2 ^ 0 \<le> 2 ^ 64" by simp
  then show ?thesis using is_double_dyadic(1) [OF n, of 0] by simp
qed

lemma is_double_numeral [simp]:
  "(numeral k :: int) \<le> 9007199254740992 \<Longrightarrow> is_double (numeral k)"
  "(numeral k :: int) \<le> 9007199254740992 \<Longrightarrow> is_double (- numeral k)"
  using is_double_of_int [of "numeral k"] is_double_minus [of "numeral k"] by simp_all


lemma is_double_2p54 [simp]: "is_double 18014398509481984" "is_double (- 18014398509481984)"
  using is_double_pow2 [of 54] by simp_all

lemma is_double_minus_one [simp]: "is_double (- 1)" "is_double (- (1/2))"
  using is_double_minus [of 1] is_double_minus [of "1/2"] by simp_all

lemmas eval64 =
  update64_def startAnimation64_def new_CardAnimator64_def progress64_def eased64_def
  isAnimating64_def plus_double_def minus_double_def times_double_def divide_double_def
  Math_min64_def Math_pow64_def lt64_def ge64_def zero64_def inf64_def Let_def round64_double




lemma is_double_07: "is_double (3152519739159347 / 4503599627370496)"
  using is_double_dyadic(1) [of 3152519739159347 52] by simp



lemma half_plus_half: "overflow64 / 2 + overflow64 / 2 = overflow64"
  by simp

section \<open>The claims\<close>

text \<open>
  C1. For every entity with an active entry \<open>anim\<close>, \<open>update\<close> returns
  \<open>from + (to - from) * eased(p)\<close>, where \<open>p = min(e / durationMs, 1.0)\<close>, \<open>e\<close> is the
  time elapsed since \<open>startTime\<close>, and \<open>eased\<close> is the curve as the specification
  words it (\<open>eased_spec\<close>). The equation is one of JavaScript numbers and holds for
  every entry and every timestamp.
\<close>

theorem C1_update_value:
  assumes "map_of (animations s) cardId = Some anim"
  shows "fst (update now cardId s) =
           Some (fromValue anim + (toValue anim - fromValue anim) *
                 eased_spec (Math_min ((Fin now - startTime anim) / duration anim) (Fin 1)))"
  using assms by (simp add: update_def Let_def progress_def eased_eq_spec)

theorem C1_update_value_witness:
  "map_of (animations (startAnimation 0 (Fin 5) Hover (Fin 0) (Fin 1) (Fin 200) new_CardAnimator))
     (Fin 5) =
     Some \<lparr>startTime = Fin 0, duration = Fin 200, fromValue = Fin 0, toValue = Fin 1,
           property = Hover\<rparr> \<and>
   fst (update 50 (Fin 5)
         (startAnimation 0 (Fin 5) Hover (Fin 0) (Fin 1) (Fin 200) new_CardAnimator)) =
     Some (Fin (1/8))"
proof -
  have h: "map_of (animations (startAnimation 0 (Fin 5) Hover (Fin 0) (Fin 1) (Fin 200)
             new_CardAnimator)) (Fin 5) =
           Some \<lparr>startTime = Fin 0, duration = Fin 200, fromValue = Fin 0, toValue = Fin 1,
                 property = Hover\<rparr>"
    by (simp add: startAnimation_def new_CardAnimator_def)
  show ?thesis
    using h C1_update_value [OF h, of 50] by (simp add: eased_spec_def)
qed

text \<open>
  C6. For an entity with no active entry, \<open>update\<close> returns \<open>null\<close> and leaves the
  animator as it was, however often it is called and at whatever timestamps, and
  \<open>isAnimating\<close> is false. A fresh animator has no entry for any identifier, whatever
  its value. No method of the class has a failing branch: each is a total function
  here, as the source has no throw and its map operations never fail.
\<close>

theorem C6_absent_entity:
  assumes "map_of (animations s) cardId = None"
  shows "update now cardId s = (None, s) \<and>
         fold (\<lambda>t st. snd (update t cardId st)) nows s = s \<and>
         fst (update now cardId (fold (\<lambda>t st. snd (update t cardId st)) nows s)) = None \<and>
         \<not> isAnimating cardId s \<and>
         update now c new_CardAnimator = (None, new_CardAnimator) \<and>
         \<not> isAnimating c new_CardAnimator \<and>
         \<not> hasActiveAnimations new_CardAnimator"
proof -
  have 1: "update now cardId s = (None, s)" using assms by (rule update_absent)
  have 2: "fold (\<lambda>t st. snd (update t cardId st)) nows s = s"
    using assms by (induction nows) (simp_all add: update_absent)
  have 3: "fst (update now cardId (fold (\<lambda>t st. snd (update t cardId st)) nows s)) = None"
    using 1 2 by simp
  have 4: "\<not> isAnimating cardId s" using assms by (simp add: isAnimating_def)
  have 5: "update now c new_CardAnimator = (None, new_CardAnimator)"
    by (simp add: update_def new_CardAnimator_def)
  have 6: "\<not> isAnimating c new_CardAnimator"
    by (simp add: isAnimating_def new_CardAnimator_def)
  have 7: "\<not> hasActiveAnimations new_CardAnimator"
    by (simp add: hasActiveAnimations_def new_CardAnimator_def)
  from 1 2 3 4 5 6 7 show ?thesis by blast
qed

theorem C6_absent_entity_witness:
  "map_of (animations (startAnimation 0 (Fin 5) Hover (Fin 0) (Fin 1) (Fin 200) new_CardAnimator))
     (Fin 99) = None \<and>
   update 10 (Fin 99)
     (startAnimation 0 (Fin 5) Hover (Fin 0) (Fin 1) (Fin 200) new_CardAnimator) =
     (None, startAnimation 0 (Fin 5) Hover (Fin 0) (Fin 1) (Fin 200) new_CardAnimator) \<and>
   \<not> isAnimating (Fin 99)
     (startAnimation 0 (Fin 5) Hover (Fin 0) (Fin 1) (Fin 200) new_CardAnimator)"
proof -
  have h: "map_of (animations (startAnimation 0 (Fin 5) Hover (Fin 0) (Fin 1) (Fin 200)
             new_CardAnimator)) (Fin 99) = None"
    by (simp add: startAnimation_def new_CardAnimator_def)
  show ?thesis
    using h C6_absent_entity [OF h, of 10] by simp
qed

text \<open>
  C7. After \<open>start(5, "hover", 0, 1, 200)\<close> at time 0, \<open>update(5)\<close> at time 100 returns
  0.5 and keeps the entry, \<open>update(5)\<close> at time 250 returns 1 and removes it, and every
  later \<open>update(5)\<close> returns \<open>null\<close>. The animator before the start is arbitrary.
\<close>

theorem C7_hover_scenario:
  "update 100 (Fin 5) (startAnimation 0 (Fin 5) Hover (Fin 0) (Fin 1) (Fin 200) s) =
     (Some (Fin (1/2)), startAnimation 0 (Fin 5) Hover (Fin 0) (Fin 1) (Fin 200) s) \<and>
   fst (update 250 (Fin 5) (startAnimation 0 (Fin 5) Hover (Fin 0) (Fin 1) (Fin 200) s)) =
     Some (Fin 1) \<and>
   update now (Fin 5)
     (snd (update 250 (Fin 5) (startAnimation 0 (Fin 5) Hover (Fin 0) (Fin 1) (Fin 200) s))) =
     (None, snd (update 250 (Fin 5) (startAnimation 0 (Fin 5) Hover (Fin 0) (Fin 1) (Fin 200) s)))"
proof -
  let ?s1 = "startAnimation 0 (Fin 5) Hover (Fin 0) (Fin 1) (Fin 200) s"
  have e: "map_of (animations ?s1) (Fin 5) =
             Some \<lparr>startTime = Fin 0, duration = Fin 200, fromValue = Fin 0, toValue = Fin 1,
                   property = Hover\<rparr>"
    by (simp add: startAnimation_def update_conv')
  have 1: "update 100 (Fin 5) ?s1 = (Some (Fin (1/2)), ?s1)"
    using update_finite [OF e, of 100] by (simp add: eased_real_def)
  have u: "update 250 (Fin 5) ?s1 =
             (Some (Fin 1), ?s1\<lparr>animations := AList.delete (Fin 5) (animations ?s1)\<rparr>)"
    using update_finite [OF e, of 250] by (simp add: eased_real_def)
  have 2: "fst (update 250 (Fin 5) ?s1) = Some (Fin 1)" using u by simp
  have gone: "map_of (animations (snd (update 250 (Fin 5) ?s1))) (Fin 5) = None"
    unfolding u snd_conv by (rule map_of_deleted)
  have 3: "update now (Fin 5) (snd (update 250 (Fin 5) ?s1)) =
             (None, snd (update 250 (Fin 5) ?s1))"
    using gone by (rule update_absent)
  from 1 2 3 show ?thesis by blast
qed




text \<open>
  C3. \<open>startAnimation\<close> for an entity that has an entry replaces that entry in place,
  whatever its property tag: two starts in a row leave the animator exactly as the
  second start alone does, the entry holds the second start's parameters, the number
  of entries does not grow, and \<open>update\<close> cannot tell the difference. In every
  reachable animator each entity has at most one entry.
\<close>

theorem C3_start_overwrites:
  "startAnimation t2 c p2 f2 g2 d2 (startAnimation t1 c p1 f1 g1 d1 s) =
     startAnimation t2 c p2 f2 g2 d2 s \<and>
   map_of (animations (startAnimation t2 c p2 f2 g2 d2 (startAnimation t1 c p1 f1 g1 d1 s))) c =
     Some \<lparr>startTime = Fin t2, duration = d2, fromValue = f2, toValue = g2, property = p2\<rparr> \<and>
   update now c (startAnimation t2 c p2 f2 g2 d2 (startAnimation t1 c p1 f1 g1 d1 s)) =
     update now c (startAnimation t2 c p2 f2 g2 d2 s) \<and>
   (isAnimating c s \<longrightarrow>
      length (animations (startAnimation t2 c p2 f2 g2 d2 s)) = length (animations s)) \<and>
   (reachable s \<longrightarrow> length (filter (\<lambda>e. fst e = k) (animations s)) \<le> 1)"
proof -
  have 1: "startAnimation t2 c p2 f2 g2 d2 (startAnimation t1 c p1 f1 g1 d1 s) =
             startAnimation t2 c p2 f2 g2 d2 s"
    by (simp add: startAnimation_def)
  have 2: "map_of (animations (startAnimation t2 c p2 f2 g2 d2 s)) c =
             Some \<lparr>startTime = Fin t2, duration = d2, fromValue = f2, toValue = g2,
                   property = p2\<rparr>"
    by (simp add: startAnimation_def update_conv')
  have 3: "length (animations (startAnimation t2 c p2 f2 g2 d2 s)) = length (animations s)"
    if "isAnimating c s"
    using that by (simp add: startAnimation_def isAnimating_def length_update_present)
  have 4: "length (filter (\<lambda>e. fst e = k) (animations s)) \<le> 1" if "reachable s"
    using that by (intro distinct_keys_count reachable_distinct)
  from 2 3 4 show ?thesis unfolding 1 by blast
qed

theorem C3_start_overwrites_witness:
  "isAnimating (Fin 5) (startAnimation 0 (Fin 5) Hover (Fin 0) (Fin 1) (Fin 200) new_CardAnimator) \<and>
   reachable (startAnimation 0 (Fin 5) Hover (Fin 0) (Fin 1) (Fin 200) new_CardAnimator) \<and>
   animations (startAnimation 50 (Fin 5) Flip (Fin 1) (Fin 0) (Fin 300)
     (startAnimation 0 (Fin 5) Hover (Fin 0) (Fin 1) (Fin 200) new_CardAnimator)) =
     [(Fin 5, \<lparr>startTime = Fin 50, duration = Fin 300, fromValue = Fin 1, toValue = Fin 0,
               property = Flip\<rparr>)] \<and>
   length (animations (startAnimation 50 (Fin 5) Flip (Fin 1) (Fin 0) (Fin 300)
     (startAnimation 0 (Fin 5) Hover (Fin 0) (Fin 1) (Fin 200) new_CardAnimator))) =
     length (animations (startAnimation 0 (Fin 5) Hover (Fin 0) (Fin 1) (Fin 200)
       new_CardAnimator)) \<and>
   length (filter (\<lambda>e. fst e = Fin 5)
     (animations (startAnimation 0 (Fin 5) Hover (Fin 0) (Fin 1) (Fin 200) new_CardAnimator)))
     \<le> 1"
proof -
  have a: "isAnimating (Fin 5)
             (startAnimation 0 (Fin 5) Hover (Fin 0) (Fin 1) (Fin 200) new_CardAnimator)"
    by (simp add: isAnimating_def startAnimation_def new_CardAnimator_def)
  have r: "reachable (startAnimation 0 (Fin 5) Hover (Fin 0) (Fin 1) (Fin 200) new_CardAnimator)"
    by (rule reachable_start) (rule reachable_new)
  have l: "animations (startAnimation 50 (Fin 5) Flip (Fin 1) (Fin 0) (Fin 300)
             (startAnimation 0 (Fin 5) Hover (Fin 0) (Fin 1) (Fin 200) new_CardAnimator)) =
           [(Fin 5, \<lparr>startTime = Fin 50, duration = Fin 300, fromValue = Fin 1, toValue = Fin 0,
                     property = Flip\<rparr>)]"
    by (simp add: startAnimation_def new_CardAnimator_def)
  show ?thesis
    using a r l
      C3_start_overwrites [of 50 "Fin 5" Flip "Fin 1" "Fin 0" "Fin 300" 0 Hover "Fin 0" "Fin 1"
        "Fin 200" "startAnimation 0 (Fin 5) Hover (Fin 0) (Fin 1) (Fin 200) new_CardAnimator"
        0 "Fin 5"]
    by simp
qed




text \<open>
  C5, as amended. An entry started with \<open>durationMs\<close> positive zero is completed by
  the first \<open>update\<close> whose timestamp is strictly later than its start: the call returns
  a value and removes the entry, and the next call returns \<open>null\<close>. An \<open>update\<close> at
  the start timestamp itself returns NaN and leaves the entry in place. An entry
  started with a negative \<open>durationMs\<close> (negative zero, a negative finite number or
  \<open>-Infinity\<close>) is never completed: at every timestamp from its start on, \<open>update\<close>
  returns a value and leaves the animator as it was.
\<close>

theorem C5_nonpositive_duration64:
  assumes "map_of (animations64 s) cardId = Some anim" and "startTime64 anim = Dbl t0"
  shows "(duration64 anim = Dbl 0 \<and> is_double now \<and> is_double t0 \<and> t0 < now \<longrightarrow>
            fst (update64 now cardId s) \<noteq> None \<and>
            snd (update64 now cardId s) =
              s\<lparr>animations64 := AList.delete cardId (animations64 s)\<rparr> \<and>
            update64 now' cardId (snd (update64 now cardId s)) =
              (None, snd (update64 now cardId s))) \<and>
         (duration64 anim = Dbl 0 \<and> now = t0 \<longrightarrow>
            update64 now cardId s = (Some NotANumber, s)) \<and>
         (sgnbit (duration64 anim) \<and> duration64 anim \<noteq> NotANumber \<and> t0 \<le> now \<longrightarrow>
            fst (update64 now cardId s) \<noteq> None \<and> snd (update64 now cardId s) = s)"
proof -
  note u = update64_present [OF assms(1), of now]
  have 1: "fst (update64 now cardId s) \<noteq> None \<and>
           snd (update64 now cardId s) =
             s\<lparr>animations64 := AList.delete cardId (animations64 s)\<rparr> \<and>
           update64 now' cardId (snd (update64 now cardId s)) =
             (None, snd (update64 now cardId s))"
    if h: "duration64 anim = Dbl 0" "is_double now" "is_double t0" "t0 < now"
  proof -
    have le: "t0 \<le> now" using h(4) by simp
    note e = elapsed64 [OF le]
    have pos: "0 < xv (Dbl now - Dbl t0)" using h(2,3,4) by (rule elapsed_positive64)
    have ns: "\<not> sgnbit (Dbl now - Dbl t0)" "\<not> is_zero (Dbl now - Dbl t0)"
      using pos_not_sgn [OF e(1) pos] by simp_all
    have nn: "Dbl now - Dbl t0 \<noteq> NotANumber" using e(1) by auto
    have q: "(Dbl now - Dbl t0) / Dbl 0 = PosInf"
      using ns nn by (simp add: divide_double_def inf64_def)
    have p: "progress64 now anim = Dbl 1"
      by (simp add: progress64_def assms(2) h(1) q Math_min64_def lt64_def)
    have d: "snd (update64 now cardId s) =
               s\<lparr>animations64 := AList.delete cardId (animations64 s)\<rparr>"
      using u by (simp add: p ge64_def lt64_def)
    have gone: "map_of (animations64 (snd (update64 now cardId s))) cardId = None"
      unfolding d by (rule map_of_deleted64)
    show ?thesis using u d update64_absent [OF gone, of now'] by simp
  qed
  have 2: "update64 now cardId s = (Some NotANumber, s)"
    if h: "duration64 anim = Dbl 0" "now = t0"
  proof -
    have p: "progress64 now anim = NotANumber"
      by (simp add: progress64_def assms(2) h elapsed_zero64 divide_double_def Math_min64_def)
    have "(toValue64 anim - fromValue64 anim) * NotANumber = NotANumber"
      by (simp add: times_double_def)
    moreover have "fromValue64 anim + NotANumber = NotANumber"
      by (simp add: plus_double_def)
    ultimately show ?thesis using u by (simp add: p eased64_nan ge64_def)
  qed
  have 3: "fst (update64 now cardId s) \<noteq> None \<and> snd (update64 now cardId s) = s"
    if h: "sgnbit (duration64 anim)" "duration64 anim \<noteq> NotANumber" "t0 \<le> now"
  proof -
    note e = elapsed64 [OF h(3)]
    have nn: "Dbl now - Dbl t0 \<noteq> NotANumber" using e(1) by auto
    define q where "q = (Dbl now - Dbl t0) / duration64 anim"
    have qq: "q = NotANumber \<or> sgnbit q"
      unfolding q_def using e(4) nn h(1,2) by (rule negative_quotient64)
    have p: "progress64 now anim = Math_min64 q (Dbl 1)"
      by (simp add: progress64_def assms(2) q_def)
    have "\<not> ge64 (Math_min64 q (Dbl 1)) (Dbl 1)"
    proof (cases "q = NotANumber")
      case True
      then show ?thesis by (simp add: Math_min64_def ge64_def)
    next
      case False
      then have lt: "lt64 q (Dbl 1)" using qq by (intro sgn_lt_one) simp_all
      then have "\<not> lt64 (Dbl 1) q" by (cases q) (auto simp: lt64_def split: if_splits)
      then show ?thesis using lt False by (simp add: Math_min64_def ge64_def)
    qed
    then show ?thesis using u by (simp add: p)
  qed
  from 1 2 3 show ?thesis by blast
qed

theorem C5_nonpositive_duration64_witness:
  "map_of (animations64 (startAnimation64 0 (Fin 5) Hover (Dbl 0) (Dbl 1) (Dbl 0)
      new_CardAnimator64)) (Fin 5) =
     Some \<lparr>startTime64 = Dbl 0, duration64 = Dbl 0, fromValue64 = Dbl 0, toValue64 = Dbl 1,
           property64 = Hover\<rparr> \<and>
   is_double 1 \<and> is_double 0 \<and> (0::real) < 1 \<and>
   snd (update64 1 (Fin 5)
     (startAnimation64 0 (Fin 5) Hover (Dbl 0) (Dbl 1) (Dbl 0) new_CardAnimator64)) =
     new_CardAnimator64 \<and>
   map_of (animations64 (startAnimation64 0 (Fin 5) Hover (Dbl 0) (Dbl 1) (Dbl (- 1))
      new_CardAnimator64)) (Fin 5) =
     Some \<lparr>startTime64 = Dbl 0, duration64 = Dbl (- 1), fromValue64 = Dbl 0, toValue64 = Dbl 1,
           property64 = Hover\<rparr> \<and>
   sgnbit (Dbl (- 1)) \<and> Dbl (- 1) \<noteq> NotANumber \<and> (0::real) \<le> 5 \<and>
   snd (update64 5 (Fin 5)
     (startAnimation64 0 (Fin 5) Hover (Dbl 0) (Dbl 1) (Dbl (- 1)) new_CardAnimator64)) =
     startAnimation64 0 (Fin 5) Hover (Dbl 0) (Dbl 1) (Dbl (- 1)) new_CardAnimator64"
proof -
  have h0: "map_of (animations64 (startAnimation64 0 (Fin 5) Hover (Dbl 0) (Dbl 1) (Dbl 0)
              new_CardAnimator64)) (Fin 5) =
            Some \<lparr>startTime64 = Dbl 0, duration64 = Dbl 0, fromValue64 = Dbl 0,
                  toValue64 = Dbl 1, property64 = Hover\<rparr>"
    by (simp add: startAnimation64_def new_CardAnimator64_def)
  have h1: "map_of (animations64 (startAnimation64 0 (Fin 5) Hover (Dbl 0) (Dbl 1) (Dbl (- 1))
              new_CardAnimator64)) (Fin 5) =
            Some \<lparr>startTime64 = Dbl 0, duration64 = Dbl (- 1), fromValue64 = Dbl 0,
                  toValue64 = Dbl 1, property64 = Hover\<rparr>"
    by (simp add: startAnimation64_def new_CardAnimator64_def)
  have d: "animations64 (startAnimation64 0 (Fin 5) Hover (Dbl 0) (Dbl 1) (Dbl 0)
             new_CardAnimator64) =
           [(Fin 5, \<lparr>startTime64 = Dbl 0, duration64 = Dbl 0, fromValue64 = Dbl 0,
                     toValue64 = Dbl 1, property64 = Hover\<rparr>)]"
    by (simp add: startAnimation64_def new_CardAnimator64_def)
  show ?thesis
    using h0 h1
      C5_nonpositive_duration64 [OF h0, of 0 1 0]
      C5_nonpositive_duration64 [OF h1, of 0 5 0]
    by (simp add: d new_CardAnimator64_def startAnimation64_def)
qed

text \<open>
  The claim as first stated fails for a negative duration, for a zero duration at the
  start timestamp, and for negative zero. Started at time 0 from 0 to 1: with
  \<open>durationMs = -1\<close>, \<open>update\<close> at time 5 has progress \<open>-5\<close>, returns
  \<open>0 + (1 - 0) * 50\<close> and keeps the entry; with \<open>durationMs = 0\<close>, \<open>update\<close> at
  time 0 has progress \<open>0 / 0\<close>, returns NaN and keeps the entry; with
  \<open>durationMs = -0\<close>, \<open>update\<close> at time 5 has progress \<open>-Infinity\<close>, returns
  \<open>Infinity\<close> and keeps the entry.
\<close>

theorem C5_nonpositive_counterexample:
  "update64 5 (Fin 5)
     (startAnimation64 0 (Fin 5) Hover (Dbl 0) (Dbl 1) (Dbl (- 1)) new_CardAnimator64) =
     (Some (Dbl 50),
      startAnimation64 0 (Fin 5) Hover (Dbl 0) (Dbl 1) (Dbl (- 1)) new_CardAnimator64) \<and>
   isAnimating64 (Fin 5) (snd (update64 5 (Fin 5)
     (startAnimation64 0 (Fin 5) Hover (Dbl 0) (Dbl 1) (Dbl (- 1)) new_CardAnimator64))) \<and>
   update64 0 (Fin 5)
     (startAnimation64 0 (Fin 5) Hover (Dbl 0) (Dbl 1) (Dbl 0) new_CardAnimator64) =
     (Some NotANumber,
      startAnimation64 0 (Fin 5) Hover (Dbl 0) (Dbl 1) (Dbl 0) new_CardAnimator64) \<and>
   update64 5 (Fin 5)
     (startAnimation64 0 (Fin 5) Hover (Dbl 0) (Dbl 1) NegZero new_CardAnimator64) =
     (Some PosInf,
      startAnimation64 0 (Fin 5) Hover (Dbl 0) (Dbl 1) NegZero new_CardAnimator64)"
  by (simp add: eval64)

text \<open>
  C8. \<open>isAnimating\<close> only reads the map (it is a function of the animator that
  returns a boolean and no new animator). It is true for an entity right after
  \<open>startAnimation\<close>, and false after one \<open>update\<close> for that entity at an elapsed time of
  at least the (positive, finite) duration. \<open>hasActiveAnimations\<close> is true exactly when
  the map has an entry, that is, when \<open>isAnimating\<close> holds for some entity.
\<close>

theorem C8_isAnimating:
  "isAnimating c (startAnimation t0 c pr f g dur s) \<and>
   (0 < d \<and> d \<le> now - t0 \<longrightarrow>
      \<not> isAnimating c (snd (update now c (startAnimation t0 c pr f g (Fin d) s)))) \<and>
   hasActiveAnimations s = (animations s \<noteq> []) \<and>
   hasActiveAnimations s = (\<exists>k. isAnimating k s)"
proof -
  have 1: "isAnimating c (startAnimation t0 c pr f g dur s)"
    by (simp add: isAnimating_def startAnimation_def update_conv')
  have 2: "\<not> isAnimating c (snd (update now c (startAnimation t0 c pr f g (Fin d) s)))"
    if h: "0 < d" "d \<le> now - t0"
  proof -
    let ?s1 = "startAnimation t0 c pr f g (Fin d) s"
    let ?a = "\<lparr>startTime = Fin t0, duration = Fin d, fromValue = f, toValue = g, property = pr\<rparr>"
    have e: "map_of (animations ?s1) c = Some ?a"
      by (simp add: startAnimation_def update_conv')
    have "1 \<le> (now - t0) / d" using h by (simp add: le_divide_eq)
    then have "progress now ?a = Fin 1"
      using h(1) progress_Fin [of ?a t0 d now] by simp
    then have "snd (update now c ?s1) = ?s1\<lparr>animations := AList.delete c (animations ?s1)\<rparr>"
      using update_present [OF e, of now] by simp
    then show ?thesis by (simp add: isAnimating_def delete_conv')
  qed
  have 3: "hasActiveAnimations s = (animations s \<noteq> [])"
    by (simp add: hasActiveAnimations_def)
  have "(animations s \<noteq> []) = (\<exists>k. k \<in> fst ` set (animations s))"
    by (cases "animations s") auto
  then have 4: "hasActiveAnimations s = (\<exists>k. isAnimating k s)"
    using 3 by (simp add: isAnimating_iff_key)
  from 1 2 3 4 show ?thesis by blast
qed

theorem C8_isAnimating_witness:
  "isAnimating (Fin 3) (startAnimation 0 (Fin 3) Flip (Fin 0) (Fin 1) (Fin 300) new_CardAnimator) \<and>
   (0::real) < 300 \<and> (300::real) \<le> 300 - 0 \<and>
   \<not> isAnimating (Fin 3) (snd (update 300 (Fin 3)
        (startAnimation 0 (Fin 3) Flip (Fin 0) (Fin 1) (Fin 300) new_CardAnimator))) \<and>
   hasActiveAnimations (startAnimation 0 (Fin 3) Flip (Fin 0) (Fin 1) (Fin 300) new_CardAnimator)"
proof -
  have l: "animations (startAnimation 0 (Fin 3) Flip (Fin 0) (Fin 1) (Fin 300) new_CardAnimator)
             \<noteq> []"
    by (simp add: startAnimation_def)
  show ?thesis
    using l C8_isAnimating [of "Fin 3" 0 Flip "Fin 0" "Fin 1" "Fin 300" new_CardAnimator 300 300]
      C8_isAnimating [of "Fin 3" 0 Flip "Fin 0" "Fin 1" "Fin 300"
        "startAnimation 0 (Fin 3) Flip (Fin 0) (Fin 1) (Fin 300) new_CardAnimator" 300 300]
    by simp
qed

text \<open>
  C9. \<open>startAnimation\<close> and \<open>update\<close> for an entity leave the entry of every other
  entity as it was, present with the same fields or absent. An \<open>update\<close> whose progress
  is below 1.0 leaves the whole animator as it was; in every case the animator after
  \<open>update\<close> is the one before, or the one before with the entity's entry deleted.
\<close>

theorem C9_frame:
  "(c' \<noteq> c \<longrightarrow>
      map_of (animations (startAnimation now c pr f g dur s)) c' = map_of (animations s) c' \<and>
      map_of (animations (snd (update now c s))) c' = map_of (animations s) c') \<and>
   (map_of (animations s) c = Some a \<and> js_lt (progress now a) (Fin 1) \<longrightarrow>
      snd (update now c s) = s) \<and>
   (snd (update now c s) = s \<or>
    snd (update now c s) = s\<lparr>animations := AList.delete c (animations s)\<rparr>)"
proof -
  have 1: "map_of (animations (startAnimation now c pr f g dur s)) c' = map_of (animations s) c'"
    if "c' \<noteq> c"
    using that by (simp add: startAnimation_def update_conv')
  have 2: "map_of (animations (snd (update now c s))) c' = map_of (animations s) c'"
    if "c' \<noteq> c"
    using that update_state_cases [of now c s] by (auto simp: delete_conv')
  have 3: "snd (update now c s) = s"
    if "map_of (animations s) c = Some a" "js_lt (progress now a) (Fin 1)"
    using update_present [OF that(1), of now] js_lt_not_ge [OF that(2)] by simp
  from 1 2 3 update_state_cases [of now c s] show ?thesis by blast
qed

theorem C9_frame_witness:
  "Fin 7 \<noteq> Fin 5 \<and>
   map_of (animations (startAnimation 0 (Fin 5) Hover (Fin 0) (Fin 1) (Fin 200)
     (startAnimation 0 (Fin 7) Flip (Fin 1) (Fin 0) (Fin 300) new_CardAnimator))) (Fin 7) =
     Some \<lparr>startTime = Fin 0, duration = Fin 300, fromValue = Fin 1, toValue = Fin 0,
           property = Flip\<rparr> \<and>
   map_of (animations (startAnimation 0 (Fin 7) Flip (Fin 1) (Fin 0) (Fin 300) new_CardAnimator))
     (Fin 7) =
     Some \<lparr>startTime = Fin 0, duration = Fin 300, fromValue = Fin 1, toValue = Fin 0,
           property = Flip\<rparr> \<and>
   js_lt (progress 100 \<lparr>startTime = Fin 0, duration = Fin 300, fromValue = Fin 1,
           toValue = Fin 0, property = Flip\<rparr>) (Fin 1) \<and>
   snd (update 100 (Fin 7)
     (startAnimation 0 (Fin 7) Flip (Fin 1) (Fin 0) (Fin 300) new_CardAnimator)) =
     startAnimation 0 (Fin 7) Flip (Fin 1) (Fin 0) (Fin 300) new_CardAnimator"
proof -
  have n: "Fin 7 \<noteq> Fin 5" by simp
  have e: "map_of (animations (startAnimation 0 (Fin 7) Flip (Fin 1) (Fin 0) (Fin 300)
             new_CardAnimator)) (Fin 7) =
           Some \<lparr>startTime = Fin 0, duration = Fin 300, fromValue = Fin 1, toValue = Fin 0,
                 property = Flip\<rparr>"
    by (simp add: startAnimation_def new_CardAnimator_def)
  have p: "js_lt (progress 100 \<lparr>startTime = Fin 0, duration = Fin 300, fromValue = Fin 1,
             toValue = Fin 0, property = Flip\<rparr>) (Fin 1)"
    by (simp add: progress_def)
  show ?thesis
    using n e p
      C9_frame [of "Fin 7" "Fin 5" 0 Hover "Fin 0" "Fin 1" "Fin 200"
        "startAnimation 0 (Fin 7) Flip (Fin 1) (Fin 0) (Fin 300) new_CardAnimator"]
      C9_frame [of "Fin 5" "Fin 7" 100 Hover "Fin 0" "Fin 1" "Fin 200"
        "startAnimation 0 (Fin 7) Flip (Fin 1) (Fin 0) (Fin 300) new_CardAnimator"
        "\<lparr>startTime = Fin 0, duration = Fin 300, fromValue = Fin 1, toValue = Fin 0,
          property = Flip\<rparr>"]
    by simp
qed




end
